theory Spec2Isabelle
  imports Complex_Main
begin

section \<open>The visibility tracker: \<open>useIntersectionObserver\<close>\<close>

text \<open>
  The composable wraps one platform \<open>IntersectionObserver\<close>. DOM elements are opaque
  handles. The platform observer is the capability the composable is written against:
  it keeps a set of observation targets and offers \<open>observe\<close>, \<open>unobserve\<close> and
  \<open>disconnect\<close>. Every call the composable makes on it is also logged, oldest first,
  so that what the code asks of the observer can be read off afterwards.
\<close>

type_synonym elem = nat

datatype error = TypeError | InvalidConfiguration

datatype threshold = Single rat | Several "rat list"

record options =
  root :: "elem option"
  rootMargin :: "string option"
  threshold :: "threshold option"

record entry =
  etarget :: elem
  isIntersecting :: bool

datatype obs_call = Observe elem | Unobserve elem | Disconnect

record observer =
  init :: options
  targets :: "elem list"
  calls :: "obs_call list"

definition observe :: "elem \<Rightarrow> observer \<Rightarrow> observer" where
  "observe e ob =
     ob\<lparr>targets := (if e \<in> set (targets ob) then targets ob else targets ob @ [e]),
        calls := calls ob @ [Observe e]\<rparr>"

definition unobserve :: "elem \<Rightarrow> observer \<Rightarrow> observer" where
  "unobserve e ob =
     ob\<lparr>targets := removeAll e (targets ob), calls := calls ob @ [Unobserve e]\<rparr>"

definition disconnect :: "observer \<Rightarrow> observer" where
  "disconnect ob = ob\<lparr>targets := [], calls := calls ob @ [Disconnect]\<rparr>"

fun threshold_values :: "threshold option \<Rightarrow> rat list" where
  "threshold_values None = []"
| "threshold_values (Some (Single r)) = [r]"
| "threshold_values (Some (Several rs)) = rs"

definition thresholds_ok :: "options \<Rightarrow> bool" where
  "thresholds_ok opts = list_all (\<lambda>r. 0 \<le> r \<and> r \<le> 1) (threshold_values (threshold opts))"

definition margin_valid :: "(string \<Rightarrow> bool) \<Rightarrow> options \<Rightarrow> bool" where
  "margin_valid margin_ok opts = (case rootMargin opts of None \<Rightarrow> True | Some m \<Rightarrow> margin_ok m)"

text \<open>
  Modelled from the spec: the constructor of the platform's \<open>IntersectionObserver\<close>, which
  is not part of the repository. The spec's error taxonomy has it reject a configuration
  whose margin string is malformed or one of whose thresholds lies outside \<open>[0,1]\<close>. The
  margin grammar is the platform's; it is the parameter \<open>margin_ok\<close>.
\<close>

definition new_IntersectionObserver :: "(string \<Rightarrow> bool) \<Rightarrow> options \<Rightarrow> error + observer" where
  "new_IntersectionObserver margin_ok opts =
     (if thresholds_ok opts \<and> margin_valid margin_ok opts
      then Inr \<lparr>init = opts, targets = [], calls = []\<rparr>
      else Inl InvalidConfiguration)"

text \<open>
  The state of one call of \<open>useIntersectionObserver\<close>: the \<open>isVisible\<close> ref, the target ref
  it was given (a shared cell the caller also writes), the observer, and the two pieces of
  bookkeeping the framework's \<open>watch\<close> keeps for the target watcher: the value the callback
  last ran with, and the function registered through \<open>onCleanup\<close> (it unobserves the
  element it closed over).
\<close>

record tracker =
  isVisible :: bool
  target :: "elem option"
  obs :: observer
  watched :: "elem option"
  cleanup :: "elem option"

text \<open>The observer's callback: \<open>([entry]) => { isVisible.value = entry.isIntersecting }\<close>.
  With no entry, reading \<open>isIntersecting\<close> of \<open>undefined\<close> throws.\<close>

fun intersection_callback :: "entry list \<Rightarrow> tracker \<Rightarrow> error + tracker" where
  "intersection_callback [] t = Inl TypeError"
| "intersection_callback (e # es) t = Inr (t\<lparr>isVisible := isIntersecting e\<rparr>)"

text \<open>The body of the target watcher, \<open>(el, _, onCleanup) => ...\<close>.\<close>

definition watch_target :: "elem option \<Rightarrow> tracker \<Rightarrow> tracker" where
  "watch_target el t =
     (case el of
        None \<Rightarrow> t
      | Some e \<Rightarrow> t\<lparr>obs := observe e (obs t), cleanup := Some e\<rparr>)"

text \<open>What the framework does when it runs the watcher after the target ref changed: the
  cleanup registered by the previous run first, then the callback with the new value.\<close>

definition run_cleanup :: "tracker \<Rightarrow> tracker" where
  "run_cleanup t =
     (case cleanup t of
        None \<Rightarrow> t
      | Some e \<Rightarrow> t\<lparr>obs := unobserve e (obs t), cleanup := None\<rparr>)"

definition target_job :: "tracker \<Rightarrow> tracker" where
  "target_job t =
     (if target t = watched t then t
      else watch_target (target t) ((run_cleanup t)\<lparr>watched := target t\<rparr>))"

definition set_target :: "elem option \<Rightarrow> tracker \<Rightarrow> tracker" where
  "set_target el t = t\<lparr>target := el\<rparr>"

definition stop :: "tracker \<Rightarrow> tracker" where
  "stop t = t\<lparr>obs := disconnect (obs t)\<rparr>"

text \<open>\<open>useIntersectionObserver(target, options)\<close>: the observer is constructed first, and
  the watcher is \<open>immediate\<close>, so its callback runs once with the target's current value.\<close>

definition useIntersectionObserver ::
  "(string \<Rightarrow> bool) \<Rightarrow> elem option \<Rightarrow> options \<Rightarrow> error + tracker" where
  "useIntersectionObserver margin_ok tgt opts =
     (case new_IntersectionObserver margin_ok opts of
        Inl e \<Rightarrow> Inl e
      | Inr ob \<Rightarrow>
          Inr (watch_target tgt
                 \<lparr>isVisible = False, target = tgt, obs = ob, watched = tgt, cleanup = None\<rparr>))"


section \<open>The deferred mount: \<open>LazyRender\<close>\<close>

text \<open>
  A virtual node as the watcher of \<open>LazyRender\<close> reads it: the element the host rendered
  it to and, for a node that stands for a child component, the component instance. The
  host fills both in while it patches, before the post-flush watcher runs. A component
  instance has the two fields the freeze mechanism touches: its \<open>render\<close> function and
  \<open>subTree\<close>, the output of its last render. The functions that are ever stored in
  \<open>render\<close> are a component's own render function and the closure
  \<open>() => component.subTree\<close>.
\<close>

type_synonym cid = nat
type_synonym data = nat
type_synonym tree = string

record vnode =
  el :: "elem option"
  component :: "cid option"

datatype render_fn = OwnRender cid | ReturnSubTree cid

record comp =
  render :: render_fn
  subTree :: tree

record props = options +
  tag :: "string option"

record slots =
  default_slot :: "vnode list option"
  fallback :: "vnode list option"

datatype rendered = Wrapper string "vnode list option" | Content "vnode list"

text \<open>
  What the host supplies: the element it creates for the wrapper, and for each child
  component the function from its underlying data to its output (its own render function).
\<close>

record host =
  wrapper_el :: elem
  view :: "cid \<Rightarrow> data \<Rightarrow> tree"

text \<open>
  One mounted \<open>LazyRender\<close>. The variables of \<open>setup\<close>: the tracker (whose target ref is
  \<open>containerRef\<close>), \<open>render\<close> and \<open>currentVNode\<close>. The host's side: the value the
  visibility watcher last ran with, the child component instances and the data they
  read, the change notifications the component has emitted, the output the host last
  committed, and how often the real content was created and discarded.
\<close>

record inst =
  tr :: tracker
  render_var :: "render_fn option"
  currentVNode :: "vnode option"
  seen :: bool
  comps :: "cid \<Rightarrow> comp"
  udata :: "cid \<Rightarrow> data"
  emitted :: "bool list"
  shown :: "rendered option"
  creations :: nat
  discards :: nat

definition tag_of :: "props \<Rightarrow> string" where
  "tag_of p = (case tag p of None \<Rightarrow> ''div'' | Some t \<Rightarrow> t)"

definition observer_options :: "props \<Rightarrow> options" where
  "observer_options p = \<lparr>root = root p, rootMargin = rootMargin p, threshold = threshold p\<rparr>"

text \<open>\<open>setup(props, { slots })\<close> up to the render closure it returns.\<close>

definition LazyRender_setup :: "(string \<Rightarrow> bool) \<Rightarrow> props \<Rightarrow> (cid \<Rightarrow> data) \<Rightarrow> error + inst" where
  "LazyRender_setup margin_ok p d0 =
     (case useIntersectionObserver margin_ok None (observer_options p) of
        Inl e \<Rightarrow> Inl e
      | Inr t \<Rightarrow>
          Inr \<lparr>tr = t, render_var = None, currentVNode = None, seen = False,
               comps = (\<lambda>c. \<lparr>render = OwnRender c, subTree = []\<rparr>), udata = d0,
               emitted = [], shown = None, creations = 0, discards = 0\<rparr>)"

text \<open>The render closure. A missing default slot makes \<open>vnode![0]\<close> throw; an empty one
  leaves \<open>currentVNode\<close> undefined.\<close>

definition render_closure :: "props \<Rightarrow> slots \<Rightarrow> inst \<Rightarrow> error + rendered \<times> inst" where
  "render_closure p sl s =
     (if \<not> isVisible (tr s) \<and> currentVNode s = None
      then Inr (Wrapper (tag_of p) (fallback sl), s)
      else case default_slot sl of
             None \<Rightarrow> Inl TypeError
           | Some vnode \<Rightarrow>
               Inr (Content vnode,
                    s\<lparr>currentVNode := (case vnode of [] \<Rightarrow> None | v # _ \<Rightarrow> Some v)\<rparr>))"

text \<open>The callback of the visibility watcher. When the tracked node is no component, the
  access to \<open>component.render\<close> throws; an exception ends the run, and what the callback
  wrote before it threw is not kept.\<close>

definition on_visible :: "bool \<Rightarrow> inst \<Rightarrow> error + inst" where
  "on_visible visible s =
     (case currentVNode s of
        None \<Rightarrow> Inr s
      | Some v \<Rightarrow>
          (let s1 = s\<lparr>tr := set_target (el v) (tr s)\<rparr> in
           case component v of
             None \<Rightarrow> Inl TypeError
           | Some c \<Rightarrow>
               if \<not> visible
               then Inr (s1\<lparr>comps := (comps s1)(c := (comps s1 c)\<lparr>render := ReturnSubTree c\<rparr>),
                            render_var := Some (render (comps s1 c))\<rparr>)
               else Inr (s1\<lparr>comps := (comps s1)
                             (c := (comps s1 c)\<lparr>render :=
                                (case render_var s1 of
                                   None \<Rightarrow> render (comps s1 c)
                                 | Some r \<Rightarrow> r)\<rparr>)\<rparr>)))"

subsection \<open>The host around it\<close>

text \<open>Calling a render function, and the host re-rendering a child: its \<open>subTree\<close> becomes
  what its current \<open>render\<close> returns.\<close>

definition call_render :: "host \<Rightarrow> inst \<Rightarrow> render_fn \<Rightarrow> tree" where
  "call_render h s f =
     (case f of
        OwnRender c \<Rightarrow> view h c (udata s c)
      | ReturnSubTree c \<Rightarrow> subTree (comps s c))"

definition rerender :: "host \<Rightarrow> cid \<Rightarrow> inst \<Rightarrow> inst" where
  "rerender h c s =
     s\<lparr>comps := (comps s)(c := (comps s c)\<lparr>subTree := call_render h s (render (comps s c))\<rparr>)\<rparr>"

definition content_cids :: "vnode list \<Rightarrow> cid list" where
  "content_cids vs = List.map_filter component vs"

definition mount_children :: "host \<Rightarrow> vnode list \<Rightarrow> inst \<Rightarrow> inst" where
  "mount_children h vs s = fold (rerender h) (content_cids vs) s"

text \<open>
  The host commits what the render closure returned. A wrapper that was not there before
  is created and bound to \<open>containerRef\<close>; when the real content replaces the wrapper, the
  wrapper's ref is cleared and the children are rendered for the first time; content that
  replaces content is patched in place.
\<close>

definition commit :: "host \<Rightarrow> rendered \<Rightarrow> inst \<Rightarrow> inst" where
  "commit h out s =
     (case out of
        Wrapper t ch \<Rightarrow>
          (case shown s of
             Some (Wrapper t' ch') \<Rightarrow> s\<lparr>shown := Some out\<rparr>
           | Some (Content vs) \<Rightarrow>
               s\<lparr>tr := set_target (Some (wrapper_el h)) (tr s), shown := Some out,
                  discards := Suc (discards s)\<rparr>
           | None \<Rightarrow> s\<lparr>tr := set_target (Some (wrapper_el h)) (tr s), shown := Some out\<rparr>)
      | Content vs \<Rightarrow>
          (case shown s of
             Some (Content vs') \<Rightarrow> s\<lparr>shown := Some out\<rparr>
           | Some (Wrapper t' ch') \<Rightarrow>
               mount_children h vs
                 (s\<lparr>tr := set_target None (tr s), shown := Some out,
                    creations := Suc (creations s)\<rparr>)
           | None \<Rightarrow> mount_children h vs (s\<lparr>shown := Some out, creations := Suc (creations s)\<rparr>)))"

text \<open>The framework runs the callback of a watcher only when the watched value differs
  from the one the callback last ran with.\<close>

definition visible_job :: "inst \<Rightarrow> error + inst" where
  "visible_job s =
     (if isVisible (tr s) = seen s then Inr s
      else on_visible (isVisible (tr s)) (s\<lparr>seen := isVisible (tr s)\<rparr>))"

definition run_target_job :: "inst \<Rightarrow> inst" where
  "run_target_job s = s\<lparr>tr := target_job (tr s)\<rparr>"

text \<open>One tick of the host's scheduler: render, commit, the target watcher, then the
  post-flush visibility watcher, and the target watcher again for what that one wrote.\<close>

definition flush :: "host \<Rightarrow> props \<Rightarrow> slots \<Rightarrow> inst \<Rightarrow> error + inst" where
  "flush h p sl s =
     (case render_closure p sl s of
        Inl e \<Rightarrow> Inl e
      | Inr (out, s1) \<Rightarrow>
          (case visible_job (run_target_job (commit h out s1)) of
             Inl e \<Rightarrow> Inl e
           | Inr s2 \<Rightarrow> Inr (run_target_job s2)))"

text \<open>
  What can happen to a mounted instance: the observer calls its callback with a list of
  entries; the host's scheduler ticks; the data a child component reads change; the host
  re-renders a child of the real content that is shown; the instance is unmounted. Of the
  unmount only the call of \<open>stop\<close> that \<open>onUnmounted\<close> registered is modelled, not the
  framework's own teardown of the watchers and the ref. The events come in any order and
  any number.
\<close>

datatype event =
    Deliver "entry list"
  | Flush
  | SetData cid data
  | Rerender cid
  | Unmount

definition is_shown :: "cid \<Rightarrow> inst \<Rightarrow> bool" where
  "is_shown c s =
     (case shown s of Some (Content vs) \<Rightarrow> c \<in> set (content_cids vs) | _ \<Rightarrow> False)"

fun step :: "host \<Rightarrow> props \<Rightarrow> slots \<Rightarrow> event \<Rightarrow> inst \<Rightarrow> error + inst" where
  "step h p sl (Deliver es) s =
     (case intersection_callback es (tr s) of
        Inl e \<Rightarrow> Inl e
      | Inr t \<Rightarrow> Inr (s\<lparr>tr := t\<rparr>))"
| "step h p sl Flush s = flush h p sl s"
| "step h p sl (SetData c d) s = Inr (s\<lparr>udata := (udata s)(c := d)\<rparr>)"
| "step h p sl (Rerender c) s = Inr (if is_shown c s then rerender h c s else s)"
| "step h p sl Unmount s = Inr (s\<lparr>tr := stop (tr s)\<rparr>)"

fun run :: "host \<Rightarrow> props \<Rightarrow> slots \<Rightarrow> event list \<Rightarrow> inst \<Rightarrow> error + inst" where
  "run h p sl [] s = Inr s"
| "run h p sl (ev # evs) s =
     (case step h p sl ev s of
        Inl e \<Rightarrow> Inl e
      | Inr s' \<Rightarrow> run h p sl evs s')"

text \<open>Mounting: \<open>setup\<close>, then the first tick.\<close>

definition mount ::
  "(string \<Rightarrow> bool) \<Rightarrow> host \<Rightarrow> props \<Rightarrow> slots \<Rightarrow> (cid \<Rightarrow> data) \<Rightarrow> error + inst" where
  "mount margin_ok h p sl d0 =
     (case LazyRender_setup margin_ok p d0 of
        Inl e \<Rightarrow> Inl e
      | Inr s \<Rightarrow> flush h p sl s)"

text \<open>A visibility transition: the tracker delivers one entry, and the host's next tick
  follows.\<close>

definition transition :: "elem \<Rightarrow> bool \<Rightarrow> event list" where
  "transition e b = [Deliver [\<lparr>etarget = e, isIntersecting = b\<rparr>], Flush]"

definition transitions :: "elem \<Rightarrow> bool list \<Rightarrow> event list" where
  "transitions e bs = concat (map (transition e) bs)"


section \<open>States of an instance\<close>

text \<open>
  The tracker's watcher has caught up with the target ref, and the observer observes at
  most that target (\<open>tracking\<close>) or exactly that target (\<open>attached\<close>).
\<close>

definition tracking :: "tracker \<Rightarrow> bool" where
  "tracking t \<longleftrightarrow>
     watched t = target t \<and> cleanup t = target t \<and>
     (targets (obs t) = [] \<or> targets (obs t) = (case target t of None \<Rightarrow> [] | Some e \<Rightarrow> [e]))"

definition attached :: "tracker \<Rightarrow> bool" where
  "attached t \<longleftrightarrow>
     watched t = target t \<and> cleanup t = target t \<and>
     targets (obs t) = (case target t of None \<Rightarrow> [] | Some e \<Rightarrow> [e])"

text \<open>
  The three states of the spec's state machine, in terms of the variables of the code, for
  an instance whose real content is \<open>v # vs\<close> with \<open>v\<close> standing for component \<open>c\<close>.
  Before the first render in the visible state nothing is tracked and the wrapper is shown;
  afterwards \<open>currentVNode\<close> is \<open>v\<close>, and the component is live when the visibility
  watcher last ran with \<open>true\<close> and frozen when it last ran with \<open>false\<close>.
\<close>

definition awaiting :: "host \<Rightarrow> props \<Rightarrow> slots \<Rightarrow> cid \<Rightarrow> inst \<Rightarrow> bool" where
  "awaiting h p sl c s \<longleftrightarrow>
     currentVNode s = None \<and> shown s = Some (Wrapper (tag_of p) (fallback sl)) \<and>
     creations s = 0 \<and> discards s = 0 \<and> \<not> seen s \<and> render_var s = None \<and>
     render (comps s c) = OwnRender c \<and> target (tr s) = Some (wrapper_el h)"

definition live :: "cid \<Rightarrow> inst \<Rightarrow> bool" where
  "live c s \<longleftrightarrow>
     seen s \<and> render (comps s c) = OwnRender c \<and>
     (render_var s = None \<or> render_var s = Some (OwnRender c))"

definition frozen :: "cid \<Rightarrow> inst \<Rightarrow> bool" where
  "frozen c s \<longleftrightarrow>
     \<not> seen s \<and> render (comps s c) = ReturnSubTree c \<and> render_var s = Some (OwnRender c)"

definition mounted :: "vnode \<Rightarrow> vnode list \<Rightarrow> cid \<Rightarrow> inst \<Rightarrow> bool" where
  "mounted v vs c s \<longleftrightarrow>
     currentVNode s = Some v \<and> shown s = Some (Content (v # vs)) \<and>
     creations s = 1 \<and> discards s = 0 \<and> target (tr s) = el v \<and>
     (live c s \<or> frozen c s)"

definition well_formed :: "slots \<Rightarrow> vnode \<Rightarrow> vnode list \<Rightarrow> cid \<Rightarrow> bool" where
  "well_formed sl v vs c \<longleftrightarrow> default_slot sl = Some (v # vs) \<and> component v = Some c"

definition inv :: "host \<Rightarrow> props \<Rightarrow> slots \<Rightarrow> vnode \<Rightarrow> vnode list \<Rightarrow> cid \<Rightarrow> inst \<Rightarrow> bool" where
  "inv h p sl v vs c s \<longleftrightarrow>
     well_formed sl v vs c \<and> tracking (tr s) \<and> (awaiting h p sl c s \<or> mounted v vs c s)"

definition LiveMounted :: "host \<Rightarrow> props \<Rightarrow> slots \<Rightarrow> vnode \<Rightarrow> vnode list \<Rightarrow> cid \<Rightarrow> inst \<Rightarrow> bool" where
  "LiveMounted h p sl v vs c s \<longleftrightarrow> inv h p sl v vs c s \<and> mounted v vs c s \<and> live c s"

definition FrozenMounted :: "host \<Rightarrow> props \<Rightarrow> slots \<Rightarrow> vnode \<Rightarrow> vnode list \<Rightarrow> cid \<Rightarrow> inst \<Rightarrow> bool" where
  "FrozenMounted h p sl v vs c s \<longleftrightarrow> inv h p sl v vs c s \<and> mounted v vs c s \<and> frozen c s"

text \<open>The render closure returns the wrapper with the fallback content.\<close>

definition shows_placeholder :: "props \<Rightarrow> slots \<Rightarrow> inst \<Rightarrow> bool" where
  "shows_placeholder p sl s =
     (case render_closure p sl s of
        Inr (Wrapper t ch, s') \<Rightarrow> True
      | _ \<Rightarrow> False)"

text \<open>Events during which the visibility stays false: no delivery whose first entry
  intersects (and no delivery without an entry, which the callback cannot handle).\<close>

fun hidden :: "event \<Rightarrow> bool" where
  "hidden (Deliver []) = False"
| "hidden (Deliver (e # es)) = (\<not> isIntersecting e)"
| "hidden ev = True"

fun delivers :: "event \<Rightarrow> bool" where
  "delivers (Deliver []) = False"
| "delivers ev = True"



section \<open>A concrete instance\<close>

text \<open>The scenario of the spec: a placeholder, and real content whose single item is a
  component that renders a counter. A second content has two items, a third none.\<close>

definition demo_host :: host where
  "demo_host = \<lparr>wrapper_el = 1, view = (\<lambda>c d. if d = 0 then ''Count: 0'' else ''Count: 5'')\<rparr>"

definition demo_props :: props where
  "demo_props = \<lparr>root = None, rootMargin = None, threshold = None, tag = None\<rparr>"

definition demo_vnode :: vnode where
  "demo_vnode = \<lparr>el = Some 2, component = Some 7\<rparr>"

definition demo_slots :: slots where
  "demo_slots = \<lparr>default_slot = Some [demo_vnode], fallback = Some []\<rparr>"

definition demo_two :: slots where
  "demo_two = \<lparr>default_slot = Some [demo_vnode, \<lparr>el = Some 3, component = Some 8\<rparr>],
                fallback = Some []\<rparr>"

definition demo_empty :: slots where
  "demo_empty = \<lparr>default_slot = Some [], fallback = Some []\<rparr>"

definition demo_run :: "slots \<Rightarrow> event list \<Rightarrow> error + inst" where
  "demo_run sl evs =
     (case mount (\<lambda>m. True) demo_host demo_props sl (\<lambda>c. 0) of
        Inl e \<Rightarrow> Inl e
      | Inr s \<Rightarrow> run demo_host demo_props sl evs s)"

definition demo_tracker :: tracker where
  "demo_tracker =
     \<lparr>isVisible = False, target = Some 1,
      obs = \<lparr>init = \<lparr>root = None, rootMargin = None, threshold = None\<rparr>,
             targets = [1], calls = [Observe 1]\<rparr>,
      watched = Some 1, cleanup = Some 1\<rparr>"


section \<open>Unfolding the model\<close>

lemmas tracker_defs = observe_def unobserve_def disconnect_def watch_target_def run_cleanup_def
  target_job_def set_target_def stop_def

lemmas lazy_defs = demo_run_def mount_def LazyRender_setup_def useIntersectionObserver_def
  new_IntersectionObserver_def thresholds_ok_def margin_valid_def observer_options_def
  flush_def render_closure_def commit_def visible_job_def run_target_job_def on_visible_def
  mount_children_def content_cids_def rerender_def call_render_def is_shown_def
  transitions_def transition_def tag_of_def List.map_filter_def

lemmas demo_defs = demo_host_def demo_props_def demo_slots_def demo_vnode_def demo_two_def
  demo_empty_def

section \<open>The tracker\<close>

text \<open>
  Claim C7, as stated, fails. \<open>stop\<close> has no guard: torn down twice, the tracker calls
  \<open>disconnect\<close> on the observer twice, so the second teardown is not a no-op for the tracker
  and the observer is not disconnected exactly once.
\<close>

theorem second_stop_disconnects_again:
  "calls (obs (stop demo_tracker)) = [Observe 1, Disconnect] \<and>
   calls (obs (stop (stop demo_tracker))) = [Observe 1, Disconnect, Disconnect] \<and>
   stop (stop demo_tracker) \<noteq> stop demo_tracker"
  by (simp add: stop_def disconnect_def demo_tracker_def)

text \<open>
  Claim C7, amended. Every teardown calls \<open>disconnect\<close> exactly once and leaves the observer
  without a target. A second teardown, or one when nothing is observed, raises no error
  and changes nothing about the tracker or the observer's targets, but it calls
  \<open>disconnect\<close> once more.
\<close>

theorem stop_disconnects_once:
  "calls (obs (stop t)) = calls (obs t) @ [Disconnect] \<and>
   targets (obs (stop t)) = [] \<and>
   stop (stop t) = (stop t)\<lparr>obs := (obs (stop t))\<lparr>calls := calls (obs (stop t)) @ [Disconnect]\<rparr>\<rparr> \<and>
   (targets (obs t) = [] \<longrightarrow>
      stop t = t\<lparr>obs := (obs t)\<lparr>calls := calls (obs t) @ [Disconnect]\<rparr>\<rparr>)"
  by (simp add: stop_def disconnect_def)

theorem stop_disconnects_once_witness:
  "targets (obs (stop demo_tracker)) = [] \<and>
   stop (stop demo_tracker) =
     (stop demo_tracker)\<lparr>obs := (obs (stop demo_tracker))
        \<lparr>calls := calls (obs (stop demo_tracker)) @ [Disconnect]\<rparr>\<rparr>"
  using stop_disconnects_once [of "stop demo_tracker"] stop_disconnects_once [of demo_tracker]
  by simp

text \<open>
  Claim C6, as stated, fails. A tracker is created on element 1 and its target is replaced
  by element 2; the watcher has run, so the observer observes 2 only. An entry for element
  1 that reaches the callback now is processed all the same: the callback reads
  \<open>isIntersecting\<close> of whatever entry comes first and never looks at the entry's target.
\<close>

theorem stale_entry_processed:
  "useIntersectionObserver (\<lambda>m. True) (Some 1) \<lparr>root = None, rootMargin = None, threshold = None\<rparr>
     = Inr demo_tracker \<and>
   targets (obs (target_job (set_target (Some 2) demo_tracker))) = [2] \<and>
   isVisible (target_job (set_target (Some 2) demo_tracker)) = False \<and>
   map_sum id isVisible
     (intersection_callback [\<lparr>etarget = 1, isIntersecting = True\<rparr>]
        (target_job (set_target (Some 2) demo_tracker))) = Inr True"
  by (simp add: useIntersectionObserver_def new_IntersectionObserver_def thresholds_ok_def
      margin_valid_def demo_tracker_def tracker_defs)

text \<open>
  Claim C6, amended. When the target ref of an attached tracker is replaced by another
  element, the next run of the target watcher calls \<open>unobserve\<close> on the old element and
  then \<open>observe\<close> on the new one, after which the new element is the observer's only
  target. The callback itself does not tell targets apart: it takes the visibility from
  the first entry it is given, whatever that entry's target.
\<close>

theorem retarget:
  assumes "attached t" and "target t = Some old" and "new \<noteq> old"
  shows "calls (obs (target_job (set_target (Some new) t))) =
           calls (obs t) @ [Unobserve old, Observe new] \<and>
         targets (obs (target_job (set_target (Some new) t))) = [new] \<and>
         attached (target_job (set_target (Some new) t)) \<and>
         intersection_callback (en # es) (target_job (set_target (Some new) t)) =
           Inr ((target_job (set_target (Some new) t))\<lparr>isVisible := isIntersecting en\<rparr>)"
  using assms by (simp add: attached_def tracker_defs)

theorem retarget_witness:
  "attached demo_tracker \<and> target demo_tracker = Some 1 \<and>
   calls (obs (target_job (set_target (Some 2) demo_tracker))) =
     [Observe 1, Unobserve 1, Observe 2] \<and>
   targets (obs (target_job (set_target (Some 2) demo_tracker))) = [2]"
proof -
  have a: "attached demo_tracker" by (simp add: attached_def demo_tracker_def)
  have b: "target demo_tracker = Some 1" by (simp add: demo_tracker_def)
  have c: "(2::nat) \<noteq> 1" by simp
  show ?thesis using a b retarget [OF a b c] by (simp add: demo_tracker_def)
qed

text \<open>
  Claim C8. A configuration with a threshold outside \<open>[0,1]\<close> or a malformed margin makes
  the observer's constructor fail with \<open>InvalidConfiguration\<close>, and the failure is not
  caught on the way out: \<open>useIntersectionObserver\<close> fails with it, and so do the component's
  \<open>setup\<close> and the mount, before any target is observed and before anything is rendered.
\<close>

theorem invalid_configuration_surfaces:
  assumes "(\<exists>r \<in> set (threshold_values (threshold p)). r < 0 \<or> 1 < r) \<or>
           (\<exists>m. rootMargin p = Some m \<and> \<not> margin_ok m)"
  shows "useIntersectionObserver margin_ok tgt (observer_options p) = Inl InvalidConfiguration \<and>
         LazyRender_setup margin_ok p d0 = Inl InvalidConfiguration \<and>
         mount margin_ok h p sl d0 = Inl InvalidConfiguration"
proof -
  have "\<not> (thresholds_ok (observer_options p) \<and> margin_valid margin_ok (observer_options p))"
    using assms
    by (fastforce simp: thresholds_ok_def margin_valid_def observer_options_def list_all_iff)
  then have "new_IntersectionObserver margin_ok (observer_options p) = Inl InvalidConfiguration"
    by (simp add: new_IntersectionObserver_def)
  then show ?thesis
    by (simp add: useIntersectionObserver_def LazyRender_setup_def mount_def)
qed

theorem invalid_configuration_surfaces_witness:
  "mount (\<lambda>m. True) demo_host (demo_props\<lparr>threshold := Some (Several [0, 2])\<rparr>) demo_slots (\<lambda>c. 0)
     = Inl InvalidConfiguration"
proof -
  have "\<exists>r \<in> set (threshold_values (threshold (demo_props\<lparr>threshold := Some (Several [0, 2])\<rparr>))).
          r < 0 \<or> 1 < r"
    by simp
  then show ?thesis
    using invalid_configuration_surfaces
      [of "demo_props\<lparr>threshold := Some (Several [0, 2])\<rparr>" "\<lambda>m. True"]
    by blast
qed

section \<open>Change notifications\<close>

text \<open>
  Claim C1 asks for one change notification per visibility transition. The component is
  mounted with the spec's scenario, becomes visible and then invisible again, each
  delivery followed by a tick of the host: it has emitted nothing. \<open>setup\<close> takes only
  \<open>slots\<close> from its context, and neither the watcher nor the render closure emits.
\<close>

theorem no_change_notification:
  "map_sum id emitted (demo_run demo_slots (transitions 1 [True, False])) = Inr []"
  by (simp add: lazy_defs demo_defs tracker_defs)


section \<open>Invariants of a mounted instance\<close>

lemma rerender_fields [simp]:
  "tr (rerender h c s) = tr s" "render_var (rerender h c s) = render_var s"
  "currentVNode (rerender h c s) = currentVNode s" "seen (rerender h c s) = seen s"
  "udata (rerender h c s) = udata s" "emitted (rerender h c s) = emitted s"
  "shown (rerender h c s) = shown s" "creations (rerender h c s) = creations s"
  "discards (rerender h c s) = discards s"
  "render (comps (rerender h c s) c') = render (comps s c')"
  by (simp_all add: rerender_def)

lemma fold_rerender_fields:
  "tr (fold (rerender h) cs s) = tr s \<and> render_var (fold (rerender h) cs s) = render_var s \<and>
   currentVNode (fold (rerender h) cs s) = currentVNode s \<and> seen (fold (rerender h) cs s) = seen s \<and>
   udata (fold (rerender h) cs s) = udata s \<and> emitted (fold (rerender h) cs s) = emitted s \<and>
   shown (fold (rerender h) cs s) = shown s \<and> creations (fold (rerender h) cs s) = creations s \<and>
   discards (fold (rerender h) cs s) = discards s \<and>
   render (comps (fold (rerender h) cs s) c') = render (comps s c')"
  by (induction cs arbitrary: s) simp_all

lemma mount_children_fields [simp]:
  "tr (mount_children h ws s) = tr s" "render_var (mount_children h ws s) = render_var s"
  "currentVNode (mount_children h ws s) = currentVNode s" "seen (mount_children h ws s) = seen s"
  "udata (mount_children h ws s) = udata s" "emitted (mount_children h ws s) = emitted s"
  "shown (mount_children h ws s) = shown s" "creations (mount_children h ws s) = creations s"
  "discards (mount_children h ws s) = discards s"
  "render (comps (mount_children h ws s) c') = render (comps s c')"
  using fold_rerender_fields [of h "content_cids ws" s c'] by (simp_all add: mount_children_def)

lemma tracking_moved: "tracking t \<Longrightarrow> tracking (target_job (set_target x t))"
  by (auto simp: tracking_def tracker_defs split: option.splits)

lemma attached_moved: "attached t \<Longrightarrow> attached (target_job (set_target x t))"
  by (auto simp: attached_def tracker_defs split: option.splits)

lemma moved_target [simp]: "target (target_job (set_target x t)) = x"
  by (auto simp: tracker_defs split: option.splits)

lemma job_isVisible [simp]:
  "isVisible (target_job t) = isVisible t" "isVisible (set_target x t) = isVisible t"
  by (auto simp: tracker_defs split: option.splits)

lemma target_job_idle: "watched t = target t \<Longrightarrow> target_job t = t"
  by (simp add: target_job_def)

lemmas flush_defs = flush_def render_closure_def commit_def visible_job_def run_target_job_def
  on_visible_def

lemma flush_awaiting_hidden:
  assumes "inv h p sl v vs c s" "awaiting h p sl c s" "\<not> isVisible (tr s)"
  shows "\<exists>s'. flush h p sl s = Inr s' \<and> inv h p sl v vs c s' \<and> awaiting h p sl c s' \<and> tr s' = tr s
     \<and> comps s' = comps s \<and> udata s' = udata s"
  using assms
  by (auto simp: inv_def awaiting_def flush_defs tracking_def target_job_idle)


lemma tracking_idle: "tracking t \<Longrightarrow> target_job t = t"
  by (simp add: tracking_def target_job_def)

lemma flush_awaiting_visible:
  assumes "inv h p sl v vs c s" "awaiting h p sl c s" "isVisible (tr s)"
  shows "\<exists>s'. flush h p sl s = Inr s' \<and> inv h p sl v vs c s' \<and> mounted v vs c s' \<and> live c s'
     \<and> isVisible (tr s') \<and> udata s' = udata s \<and> (attached (tr s) \<longrightarrow> attached (tr s'))
     \<and> (\<forall>c'. c' \<noteq> c \<longrightarrow> render (comps s' c') = render (comps s c'))"
  using assms
  by (auto simp: inv_def awaiting_def mounted_def live_def well_formed_def flush_defs
      tracking_moved attached_moved)

lemma flush_mounted:
  assumes "inv h p sl v vs c s" "mounted v vs c s"
  shows "\<exists>s'. flush h p sl s = Inr s' \<and> inv h p sl v vs c s' \<and> mounted v vs c s'
     \<and> seen s' = isVisible (tr s) \<and> isVisible (tr s') = isVisible (tr s) \<and> udata s' = udata s
     \<and> (\<forall>c'. subTree (comps s' c') = subTree (comps s c'))
     \<and> (\<forall>c'. c' \<noteq> c \<longrightarrow> comps s' c' = comps s c')
     \<and> (attached (tr s) \<longrightarrow> attached (tr s'))"
  using assms
  by (auto simp: inv_def mounted_def live_def frozen_def well_formed_def flush_defs
      tracking_moved tracking_idle attached_moved)



lemma flush_inv:
  assumes "inv h p sl v vs c s"
  shows "\<exists>s'. flush h p sl s = Inr s' \<and> inv h p sl v vs c s'"
proof (cases "awaiting h p sl c s")
  case True
  then show ?thesis
    using assms flush_awaiting_hidden [of h p sl v vs c s] flush_awaiting_visible [of h p sl v vs c s]
    by (cases "isVisible (tr s)") blast+
next
  case False
  then have "mounted v vs c s" using assms by (simp add: inv_def)
  then show ?thesis using assms flush_mounted [of h p sl v vs c s] by blast
qed

lemma deliver_inv:
  assumes "inv h p sl v vs c s"
  shows "inv h p sl v vs c (s\<lparr>tr := (tr s)\<lparr>isVisible := b\<rparr>\<rparr>)"
  using assms
  by (simp add: inv_def awaiting_def mounted_def live_def frozen_def tracking_def)

lemma setdata_inv:
  assumes "inv h p sl v vs c s"
  shows "inv h p sl v vs c (s\<lparr>udata := d\<rparr>)"
  using assms
  by (simp add: inv_def awaiting_def mounted_def live_def frozen_def)

lemma rerender_inv:
  assumes "inv h p sl v vs c s"
  shows "inv h p sl v vs c (rerender h c' s)"
  using assms
  by (simp add: inv_def awaiting_def mounted_def live_def frozen_def)

lemma unmount_inv:
  assumes "inv h p sl v vs c s"
  shows "inv h p sl v vs c (s\<lparr>tr := stop (tr s)\<rparr>)"
  using assms
  by (simp add: inv_def awaiting_def mounted_def live_def frozen_def tracking_def stop_def
      disconnect_def)

lemma step_inv:
  assumes "inv h p sl v vs c s" "step h p sl ev s = Inr s'"
  shows "inv h p sl v vs c s'"
proof (cases ev)
  case (Deliver es)
  show ?thesis
  proof (cases es)
    case Nil
    then show ?thesis using assms Deliver by simp
  next
    case (Cons e es')
    then have "s' = s\<lparr>tr := (tr s)\<lparr>isVisible := isIntersecting e\<rparr>\<rparr>"
      using assms Deliver by simp
    then show ?thesis using assms(1) deliver_inv by simp
  qed
next
  case Flush
  then have "flush h p sl s = Inr s'" using assms by simp
  then show ?thesis using assms(1) flush_inv [of h p sl v vs c s] by auto
next
  case (SetData c' d)
  then have "s' = s\<lparr>udata := (udata s)(c' := d)\<rparr>" using assms by simp
  then show ?thesis using assms(1) setdata_inv by simp
next
  case (Rerender c')
  then have "s' = rerender h c' s \<or> s' = s" using assms by (auto split: if_splits)
  then show ?thesis using assms(1) rerender_inv by auto
next
  case Unmount
  then have "s' = s\<lparr>tr := stop (tr s)\<rparr>" using assms by simp
  then show ?thesis using assms(1) unmount_inv by simp
qed

lemma step_total:
  assumes "inv h p sl v vs c s" "delivers ev"
  shows "\<exists>s'. step h p sl ev s = Inr s'"
proof (cases ev)
  case (Deliver es)
  then obtain e es' where "es = e # es'" using assms(2) by (cases es) simp_all
  then show ?thesis using Deliver by simp
next
  case Flush
  then show ?thesis using assms(1) flush_inv [of h p sl v vs c s] by auto
next
  case (SetData c' d)
  then show ?thesis by simp
next
  case (Rerender c')
  then show ?thesis by simp
next
  case Unmount
  then show ?thesis by simp
qed



lemma run_total:
  "inv h p sl v vs c s \<Longrightarrow> list_all delivers evs \<Longrightarrow> \<exists>s'. run h p sl evs s = Inr s'"
proof (induction evs arbitrary: s)
  case Nil
  then show ?case by simp
next
  case (Cons ev evs)
  then obtain s1 where s1: "step h p sl ev s = Inr s1"
    using step_total [of h p sl v vs c s ev] by auto
  then have "inv h p sl v vs c s1" using Cons.prems(1) step_inv by blast
  then show ?case using Cons s1 by simp
qed

lemma run_append:
  "run h p sl (xs @ ys) s = (case run h p sl xs s of Inl e \<Rightarrow> Inl e | Inr s' \<Rightarrow> run h p sl ys s')"
  by (induction xs arbitrary: s) (auto split: sum.splits)



lemma mount_inv:
  assumes "well_formed sl v vs c" "mount margin_ok h p sl d0 = Inr s0"
  shows "inv h p sl v vs c s0 \<and> awaiting h p sl c s0 \<and> \<not> isVisible (tr s0) \<and> attached (tr s0)
    \<and> udata s0 = d0 \<and> emitted s0 = []"
proof -
  obtain t where t: "useIntersectionObserver margin_ok None (observer_options p) = Inr t"
    using assms(2) by (auto simp: mount_def LazyRender_setup_def split: sum.splits)
  then have t_eq: "t = \<lparr>isVisible = False, target = None,
      obs = \<lparr>init = observer_options p, targets = [], calls = []\<rparr>, watched = None, cleanup = None\<rparr>"
    by (auto simp: useIntersectionObserver_def new_IntersectionObserver_def watch_target_def
        split: if_splits)
  have "flush h p sl \<lparr>tr = t, render_var = None, currentVNode = None, seen = False,
               comps = (\<lambda>c. \<lparr>render = OwnRender c, subTree = []\<rparr>), udata = d0,
               emitted = [], shown = None, creations = 0, discards = 0\<rparr> = Inr s0"
    using assms(2) t by (simp add: mount_def LazyRender_setup_def)
  then have "s0 = \<lparr>tr = \<lparr>isVisible = False, target = Some (wrapper_el h),
      obs = \<lparr>init = observer_options p, targets = [wrapper_el h], calls = [Observe (wrapper_el h)]\<rparr>,
      watched = Some (wrapper_el h), cleanup = Some (wrapper_el h)\<rparr>,
      render_var = None, currentVNode = None, seen = False,
      comps = (\<lambda>c. \<lparr>render = OwnRender c, subTree = []\<rparr>), udata = d0,
      emitted = [], shown = Some (Wrapper (tag_of p) (fallback sl)), creations = 0, discards = 0\<rparr>"
    by (simp add: t_eq flush_defs tracker_defs)
  then show ?thesis using assms(1)
    by (simp add: inv_def awaiting_def tracking_def attached_def)
qed



lemma transition_awaiting:
  assumes "inv h p sl v vs c s" "awaiting h p sl c s"
  shows "\<exists>s'. run h p sl (transition e b) s = Inr s' \<and> inv h p sl v vs c s' \<and>
     (if b then mounted v vs c s' \<and> live c s' else awaiting h p sl c s') \<and>
     isVisible (tr s') = b \<and> udata s' = udata s"
proof -
  let ?s1 = "s\<lparr>tr := (tr s)\<lparr>isVisible := b\<rparr>\<rparr>"
  have i1: "inv h p sl v vs c ?s1" using assms(1) by (rule deliver_inv)
  have a1: "awaiting h p sl c ?s1" using assms(2) by (simp add: awaiting_def)
  have r: "run h p sl (transition e b) s = flush h p sl ?s1"
    by (simp add: transition_def split: sum.splits)
  show ?thesis
  proof (cases b)
    case True
    then have "isVisible (tr ?s1)" by simp
    from flush_awaiting_visible [OF i1 a1 this] show ?thesis using r True by auto
  next
    case False
    then have "\<not> isVisible (tr ?s1)" by simp
    from flush_awaiting_hidden [OF i1 a1 this] show ?thesis using r False by auto
  qed
qed

lemma mounted_cases: "mounted v vs c s \<Longrightarrow> (seen s \<longrightarrow> live c s) \<and> (\<not> seen s \<longrightarrow> frozen c s)"
  by (auto simp: mounted_def live_def frozen_def)






lemma placeholder_awaiting:
  "awaiting h p sl c s \<Longrightarrow> \<not> isVisible (tr s) \<Longrightarrow> shows_placeholder p sl s"
  by (simp add: shows_placeholder_def render_closure_def awaiting_def)

lemma placeholder_mounted:
  "inv h p sl v vs c s \<Longrightarrow> mounted v vs c s \<Longrightarrow> \<not> shows_placeholder p sl s"
  by (simp add: shows_placeholder_def render_closure_def inv_def well_formed_def mounted_def)

lemma step_mounted:
  assumes "inv h p sl v vs c s" "mounted v vs c s" "step h p sl ev s = Inr s'"
  shows "mounted v vs c s'"
proof (cases ev)
  case (Deliver es)
  show ?thesis
  proof (cases es)
    case Nil
    then show ?thesis using assms Deliver by simp
  next
    case (Cons e es')
    then have "s' = s\<lparr>tr := (tr s)\<lparr>isVisible := isIntersecting e\<rparr>\<rparr>"
      using assms Deliver by simp
    then show ?thesis using assms(2) by (simp add: mounted_def live_def frozen_def)
  qed
next
  case Flush
  then have "flush h p sl s = Inr s'" using assms by simp
  then show ?thesis using flush_mounted [OF assms(1,2)] by auto
next
  case (SetData c' d)
  then have "s' = s\<lparr>udata := (udata s)(c' := d)\<rparr>" using assms by simp
  then show ?thesis using assms(2) by (simp add: mounted_def live_def frozen_def)
next
  case (Rerender c')
  then have "s' = rerender h c' s \<or> s' = s" using assms by (auto split: if_splits)
  then show ?thesis using assms(2) by (auto simp: mounted_def live_def frozen_def)
next
  case Unmount
  then have "s' = s\<lparr>tr := stop (tr s)\<rparr>" using assms by simp
  then show ?thesis using assms(2) by (simp add: mounted_def live_def frozen_def stop_def)
qed

lemma run_mounted:
  "inv h p sl v vs c s \<Longrightarrow> mounted v vs c s \<Longrightarrow> run h p sl evs s = Inr s' \<Longrightarrow> mounted v vs c s'"
proof (induction evs arbitrary: s)
  case Nil
  then show ?case by simp
next
  case (Cons ev evs)
  from Cons.prems(3) obtain s1 where s1: "step h p sl ev s = Inr s1" and r: "run h p sl evs s1 = Inr s'"
    by (auto split: sum.splits)
  have "inv h p sl v vs c s1" using Cons.prems(1) s1 step_inv by blast
  moreover have "mounted v vs c s1" using Cons.prems s1 step_mounted by blast
  ultimately show ?case using Cons.IH r by blast
qed

lemma demo_well_formed: "well_formed demo_slots demo_vnode [] 7"
  by (simp add: well_formed_def demo_slots_def demo_vnode_def)

lemma demo_mount: "\<exists>s0. mount (\<lambda>m. True) demo_host demo_props demo_slots (\<lambda>c. 0) = Inr s0"
  by (simp add: lazy_defs demo_defs tracker_defs)




lemma commit_fields [simp]:
  "currentVNode (commit h out s) = currentVNode s" "isVisible (tr (commit h out s)) = isVisible (tr s)"
  by (auto simp: commit_def split: rendered.splits option.splits)








section \<open>Placeholder or real content\<close>





section \<open>Creation of the real content\<close>











section \<open>The observed target\<close>












section \<open>Freezing and resuming\<close>

lemma frozen_call: "frozen c s \<Longrightarrow> call_render h s (render (comps s c)) = subTree (comps s c)"
  by (simp add: frozen_def call_render_def)

lemma live_call: "live c s \<Longrightarrow> call_render h s (render (comps s c)) = view h c (udata s c)"
  by (simp add: live_def call_render_def)

lemma rerender_subTree:
  "subTree (comps (rerender h c' s) c) =
     (if c' = c then call_render h s (render (comps s c)) else subTree (comps s c))"
  by (simp add: rerender_def)

lemma hidden_step:
  assumes "FrozenMounted h p sl v vs c s" "\<not> isVisible (tr s)" "hidden ev"
  shows "\<exists>s'. step h p sl ev s = Inr s' \<and> FrozenMounted h p sl v vs c s' \<and>
     \<not> isVisible (tr s') \<and> subTree (comps s' c) = subTree (comps s c)"
proof -
  have i: "inv h p sl v vs c s" and m: "mounted v vs c s" and f: "frozen c s"
    using assms(1) by (simp_all add: FrozenMounted_def)
  show ?thesis
  proof (cases ev)
    case (Deliver es)
    then obtain e es' where es: "es = e # es'" "\<not> isIntersecting e"
      using assms(3) by (cases es) auto
    let ?s' = "s\<lparr>tr := (tr s)\<lparr>isVisible := False\<rparr>\<rparr>"
    have "step h p sl ev s = Inr ?s'" using Deliver es by simp
    moreover have "FrozenMounted h p sl v vs c ?s'"
      using deliver_inv [OF i] m f by (simp add: FrozenMounted_def mounted_def live_def frozen_def)
    ultimately show ?thesis by simp
  next
    case Flush
    from flush_mounted [OF i m]
    obtain s' where s': "flush h p sl s = Inr s'" "inv h p sl v vs c s'" "mounted v vs c s'"
      "seen s' = isVisible (tr s)" "isVisible (tr s') = isVisible (tr s)"
      "\<forall>c'. subTree (comps s' c') = subTree (comps s c')" by blast
    have "frozen c s'" using mounted_cases [OF s'(3)] s'(4) assms(2) by simp
    then show ?thesis using Flush s' assms(2) by (simp add: FrozenMounted_def)
  next
    case (SetData c' d)
    let ?s' = "s\<lparr>udata := (udata s)(c' := d)\<rparr>"
    have "FrozenMounted h p sl v vs c ?s'"
      using setdata_inv [OF i] m f by (simp add: FrozenMounted_def mounted_def live_def frozen_def)
    then show ?thesis using SetData assms(2) by simp
  next
    case (Rerender c')
    have "FrozenMounted h p sl v vs c (rerender h c' s)"
      using rerender_inv [OF i] m f by (simp add: FrozenMounted_def mounted_def live_def frozen_def)
    moreover have "subTree (comps (rerender h c' s) c) = subTree (comps s c)"
      using frozen_call [OF f] by (simp add: rerender_subTree)
    ultimately show ?thesis using Rerender assms(1,2) by simp
  next
    case Unmount
    let ?s' = "s\<lparr>tr := stop (tr s)\<rparr>"
    have "FrozenMounted h p sl v vs c ?s'"
      using unmount_inv [OF i] m f
      by (simp add: FrozenMounted_def mounted_def live_def frozen_def stop_def)
    then show ?thesis using Unmount assms(2) by (simp add: stop_def)
  qed
qed

lemma hidden_run:
  "FrozenMounted h p sl v vs c s \<Longrightarrow> \<not> isVisible (tr s) \<Longrightarrow> list_all hidden evs \<Longrightarrow>
   \<exists>s'. run h p sl evs s = Inr s' \<and> FrozenMounted h p sl v vs c s' \<and>
     \<not> isVisible (tr s') \<and> subTree (comps s' c) = subTree (comps s c)"
proof (induction evs arbitrary: s)
  case Nil
  then show ?case by simp
next
  case (Cons ev evs)
  from hidden_step [OF Cons.prems(1,2), of ev] Cons.prems(3)
  obtain s1 where s1: "step h p sl ev s = Inr s1" "FrozenMounted h p sl v vs c s1"
    "\<not> isVisible (tr s1)" "subTree (comps s1 c) = subTree (comps s c)" by auto
  from Cons.IH [OF s1(2,3)] Cons.prems(3) s1 show ?case by auto
qed

text \<open>
  Claim C3. A live instance has been told that it is no longer visible. The host's next
  tick installs the override on the component of the tracked node and changes nothing
  else about that component: its last output stays, and the real content is neither
  created anew nor discarded. From then on, through any number of re-renders of the
  child, ticks of the host, changes of the data and further deliveries that leave the
  visibility false, every call of the component's render function returns the output it
  had when it was frozen, and that output stays its \<open>subTree\<close>.
\<close>

theorem frozen_output_pinned:
  assumes "LiveMounted h p sl v vs c s" and "\<not> isVisible (tr s)" and "list_all hidden evs"
  shows "\<exists>s1 s2. flush h p sl s = Inr s1 \<and>
           FrozenMounted h p sl v vs c s1 \<and>
           comps s1 c = (comps s c)\<lparr>render := ReturnSubTree c\<rparr> \<and>
           udata s1 = udata s \<and> creations s1 = creations s \<and> discards s1 = discards s \<and>
           run h p sl evs s1 = Inr s2 \<and>
           FrozenMounted h p sl v vs c s2 \<and>
           call_render h s2 (render (comps s2 c)) = subTree (comps s c) \<and>
           subTree (comps s2 c) = subTree (comps s c) \<and>
           creations s2 = creations s \<and> discards s2 = discards s"
proof -
  have i: "inv h p sl v vs c s" and m: "mounted v vs c s"
    using assms(1) by (simp_all add: LiveMounted_def)
  from flush_mounted [OF i m]
  obtain s1 where s1: "flush h p sl s = Inr s1" "inv h p sl v vs c s1"
    "mounted v vs c s1" "seen s1 = isVisible (tr s)" "isVisible (tr s1) = isVisible (tr s)"
    "udata s1 = udata s" "\<forall>c'. subTree (comps s1 c') = subTree (comps s c')" by blast
  have f1: "frozen c s1" using mounted_cases [OF s1(3)] s1(4) assms(2) by simp
  have F1: "FrozenMounted h p sl v vs c s1" using s1(2,3) f1 by (simp add: FrozenMounted_def)
  have c1: "comps s1 c = (comps s c)\<lparr>render := ReturnSubTree c\<rparr>"
    using f1 spec [OF s1(7), of c] by (cases "comps s1 c"; cases "comps s c") (auto simp: frozen_def)
  have "\<not> isVisible (tr s1)" using s1(5) assms(2) by simp
  from hidden_run [OF F1 this assms(3)]
  obtain s2 where s2: "run h p sl evs s1 = Inr s2" "FrozenMounted h p sl v vs c s2"
    "subTree (comps s2 c) = subTree (comps s1 c)" by auto
  have "call_render h s2 (render (comps s2 c)) = subTree (comps s2 c)"
    using s2(2) frozen_call by (simp add: FrozenMounted_def)
  moreover have "creations s = 1" "discards s = 0" "creations s1 = 1" "discards s1 = 0"
    "creations s2 = 1" "discards s2 = 0"
    using m s1(3) s2(2) by (simp_all add: mounted_def FrozenMounted_def)
  ultimately show ?thesis using s1 F1 c1 s2 by auto
qed

lemma on_visible_udata: "on_visible b s = Inr s' \<Longrightarrow> udata s' = udata s"
  by (auto simp: on_visible_def Let_def split: option.splits if_splits)

lemma commit_udata [simp]: "udata (commit h out s) = udata s"
  by (auto simp: commit_def split: rendered.splits option.splits)

lemma flush_udata:
  assumes "flush h p sl s = Inr s'"
  shows "udata s' = udata s"
proof -
  obtain out s1 where r: "render_closure p sl s = Inr (out, s1)"
    using assms by (auto simp: flush_def split: sum.splits)
  obtain s2 where v: "visible_job (run_target_job (commit h out s1)) = Inr s2"
    and e: "s' = run_target_job s2"
    using assms r by (auto simp: flush_def split: sum.splits)
  have "udata s1 = udata s" using r by (auto simp: render_closure_def split: if_splits option.splits)
  moreover have "udata s2 = udata (run_target_job (commit h out s1))"
    using v on_visible_udata [of "isVisible (tr (run_target_job (commit h out s1)))"
        "(run_target_job (commit h out s1))\<lparr>seen := isVisible (tr (run_target_job (commit h out s1)))\<rparr>" s2]
    by (auto simp: visible_job_def split: if_splits)
  ultimately show ?thesis using e by (simp add: run_target_job_def)
qed

lemma demo_live:
  assumes "mount (\<lambda>m. True) demo_host demo_props demo_slots (\<lambda>c. 0) = Inr s0"
  shows "\<exists>s. run demo_host demo_props demo_slots (transition 1 True) s0 = Inr s \<and>
     LiveMounted demo_host demo_props demo_slots demo_vnode [] 7 s \<and> udata s = (\<lambda>c. 0)"
proof -
  from mount_inv [OF demo_well_formed assms]
  have i: "inv demo_host demo_props demo_slots demo_vnode [] 7 s0"
    and a: "awaiting demo_host demo_props demo_slots 7 s0" and u: "udata s0 = (\<lambda>c. 0)" by simp_all
  from transition_awaiting [OF i a, of 1 True] u show ?thesis
    by (auto simp: LiveMounted_def)
qed

theorem frozen_output_pinned_witness:
  "\<exists>s0 s s1 s2. mount (\<lambda>m. True) demo_host demo_props demo_slots (\<lambda>c. 0) = Inr s0 \<and>
      run demo_host demo_props demo_slots
        (transition 1 True @ [Deliver [\<lparr>etarget = 2, isIntersecting = False\<rparr>]]) s0 = Inr s \<and>
      flush demo_host demo_props demo_slots s = Inr s1 \<and>
      run demo_host demo_props demo_slots [SetData 7 5, Rerender 7, Flush, Rerender 7] s1 = Inr s2 \<and>
      udata s2 7 = 5 \<and> subTree (comps s2 7) = subTree (comps s 7)"
proof -
  obtain s0 where m: "mount (\<lambda>m. True) demo_host demo_props demo_slots (\<lambda>c. 0) = Inr s0"
    using demo_mount by blast
  from demo_live [OF m] obtain sa where
    sa: "run demo_host demo_props demo_slots (transition 1 True) s0 = Inr sa"
    "LiveMounted demo_host demo_props demo_slots demo_vnode [] 7 sa" by blast
  let ?s = "sa\<lparr>tr := (tr sa)\<lparr>isVisible := False\<rparr>\<rparr>"
  have r: "run demo_host demo_props demo_slots
        (transition 1 True @ [Deliver [\<lparr>etarget = 2, isIntersecting = False\<rparr>]]) s0 = Inr ?s"
    using sa(1) by (simp add: run_append)
  have l: "LiveMounted demo_host demo_props demo_slots demo_vnode [] 7 ?s"
    using sa(2) deliver_inv [of demo_host demo_props demo_slots demo_vnode "[]" 7 sa False]
    by (simp add: LiveMounted_def mounted_def live_def frozen_def)
  have nv: "\<not> isVisible (tr ?s)" by simp
  have hd: "list_all hidden [SetData 7 5, Rerender 7, Flush, Rerender 7]" by simp
  from frozen_output_pinned [OF l nv hd]
  obtain s1 s2 where q: "flush demo_host demo_props demo_slots ?s = Inr s1"
    "run demo_host demo_props demo_slots [SetData 7 5, Rerender 7, Flush, Rerender 7] s1 = Inr s2"
    "subTree (comps s2 7) = subTree (comps ?s 7)" by blast
  have "udata s2 7 = 5" using q(2) by (auto split: sum.splits if_splits dest!: flush_udata)
  then show ?thesis using m r q by blast
qed

lemma mounted_is_shown: "well_formed sl v vs c \<Longrightarrow> mounted v vs c s \<Longrightarrow> is_shown c s"
  by (simp add: is_shown_def mounted_def well_formed_def content_cids_def List.map_filter_simps)


lemma deliver_frozen:
  "FrozenMounted h p sl v vs c s \<Longrightarrow>
   FrozenMounted h p sl v vs c (s\<lparr>tr := (tr s)\<lparr>isVisible := b\<rparr>\<rparr>)"
  using deliver_inv [of h p sl v vs c s b]
  by (simp add: FrozenMounted_def mounted_def live_def frozen_def)

text \<open>What the tick that resumes a frozen instance does, and what it leaves undone: the
  component's own render function is put back, so that a re-render of the child would
  give the output for the data as they are now; but the tick re-renders nothing, and the
  component's \<open>subTree\<close> is still the frozen output.\<close>

lemma resume_restores_render:
  assumes "FrozenMounted h p sl v vs c s" and "isVisible (tr s)"
  shows "\<exists>s1 s2. flush h p sl s = Inr s1 \<and> LiveMounted h p sl v vs c s1 \<and>
           render (comps s1 c) = OwnRender c \<and> udata s1 = udata s \<and>
           subTree (comps s1 c) = subTree (comps s c) \<and>
           call_render h s1 (render (comps s1 c)) = view h c (udata s c) \<and>
           step h p sl (Rerender c) s1 = Inr s2 \<and>
           subTree (comps s2 c) = view h c (udata s c)"
proof -
  have i: "inv h p sl v vs c s" and m: "mounted v vs c s"
    using assms(1) by (simp_all add: FrozenMounted_def)
  from flush_mounted [OF i m]
  obtain s1 where s1: "flush h p sl s = Inr s1" "inv h p sl v vs c s1"
    "mounted v vs c s1" "seen s1 = isVisible (tr s)" "udata s1 = udata s"
    "\<forall>c'. subTree (comps s1 c') = subTree (comps s c')" by blast
  have l1: "live c s1" using mounted_cases [OF s1(3)] s1(4) assms(2) by simp
  have L1: "LiveMounted h p sl v vs c s1" using s1(2,3) l1 by (simp add: LiveMounted_def)
  have r1: "render (comps s1 c) = OwnRender c" using l1 by (simp add: live_def)
  have st: "subTree (comps s1 c) = subTree (comps s c)" using s1(6) by simp
  have c1: "call_render h s1 (render (comps s1 c)) = view h c (udata s c)"
    using live_call [OF l1] s1(5) by simp
  have wf: "well_formed sl v vs c" using i by (simp add: inv_def)
  have "step h p sl (Rerender c) s1 = Inr (rerender h c s1)"
    using mounted_is_shown [OF wf s1(3)] by simp
  moreover have "subTree (comps (rerender h c s1) c) = view h c (udata s c)"
    using c1 by (simp add: rerender_subTree)
  ultimately show ?thesis using s1 L1 r1 st c1 by blast
qed

text \<open>
  Claim C4 asks that, once a frozen instance is visible again, the output shown reflects
  the data as they are now, with no stale frame after resuming. In the spec's scenario the
  component is shown, frozen, its data change from 0 to 5 while it is frozen (the host
  re-renders it and gets the frozen output), and it becomes visible again: after the tick
  that resumes it, and after one more tick, its own render function is back, the data are
  5, and its output is still the one for 0. The watcher only reassigns
  \<open>component.render\<close>; nothing makes the child render again.
\<close>

theorem resume_shows_stale_frame:
  "map_sum id (\<lambda>s. (udata s 7, subTree (comps s 7), render (comps s 7)))
     (demo_run demo_slots
        (transitions 1 [True, False] @ [SetData 7 5, Rerender 7] @ transitions 2 [True] @ [Flush]))
     = Inr (5, ''Count: 0'', OwnRender 7)"
  by (simp add: lazy_defs demo_defs tracker_defs)






section \<open>No event emits\<close>

text \<open>Neither the watcher nor the render closure nor anything else the component does
  touches the list of emitted notifications, whatever the content and the events.\<close>

lemma on_visible_emitted: "on_visible b s = Inr s' \<Longrightarrow> emitted s' = emitted s"
  by (auto simp: on_visible_def Let_def split: option.splits if_splits)

lemma commit_emitted [simp]: "emitted (commit h out s) = emitted s"
  by (auto simp: commit_def split: rendered.splits option.splits)

lemma flush_emitted:
  assumes "flush h p sl s = Inr s'"
  shows "emitted s' = emitted s"
proof -
  obtain out s1 where r: "render_closure p sl s = Inr (out, s1)"
    using assms by (auto simp: flush_def split: sum.splits)
  obtain s2 where v: "visible_job (run_target_job (commit h out s1)) = Inr s2"
    and e: "s' = run_target_job s2"
    using assms r by (auto simp: flush_def split: sum.splits)
  have "emitted s1 = emitted s"
    using r by (auto simp: render_closure_def split: if_splits option.splits)
  moreover have "emitted s2 = emitted (run_target_job (commit h out s1))"
    using v on_visible_emitted [of "isVisible (tr (run_target_job (commit h out s1)))"
        "(run_target_job (commit h out s1))\<lparr>seen := isVisible (tr (run_target_job (commit h out s1)))\<rparr>" s2]
    by (auto simp: visible_job_def split: if_splits)
  ultimately show ?thesis using e by (simp add: run_target_job_def)
qed

lemma step_emitted:
  assumes "step h p sl ev s = Inr s'"
  shows "emitted s' = emitted s"
proof (cases ev)
  case (Deliver es)
  then show ?thesis using assms by (cases es) auto
next
  case Flush
  then show ?thesis using assms flush_emitted by auto
next
  case (SetData c d)
  then show ?thesis using assms by auto
next
  case (Rerender c)
  then show ?thesis using assms by (auto split: if_splits)
next
  case Unmount
  then show ?thesis using assms by auto
qed

lemma run_emitted: "run h p sl evs s = Inr s' \<Longrightarrow> emitted s' = emitted s"
proof (induction evs arbitrary: s)
  case Nil
  then show ?case by simp
next
  case (Cons ev evs)
  from Cons.prems obtain s1 where s1: "step h p sl ev s = Inr s1" and r: "run h p sl evs s1 = Inr s'"
    by (auto split: sum.splits)
  from step_emitted [OF s1] Cons.IH [OF r] show ?case by simp
qed

lemma mount_emitted: "mount margin_ok h p sl d0 = Inr s0 \<Longrightarrow> emitted s0 = []"
  by (auto simp: mount_def LazyRender_setup_def split: sum.splits dest!: flush_emitted)

end
